theory Spec2Isabelle
  imports Main "HOL-Library.Multiset" "HOL-Library.Product_Lexorder"
begin

section \<open>Data model\<close>

text \<open>
  The materializer of \<^verbatim>\<open>blog/views.py\<close> works on the dictionaries that
  \<^verbatim>\<open>queryset.values()\<close> yields: each has an \<^verbatim>\<open>id\<close>, a \<^verbatim>\<open>parent_id\<close>
  (an integer or \<^verbatim>\<open>None\<close>) and the other columns of the table, which the algorithm
  never reads; they are the \<open>payload\<close>. A dictionary that has been placed in the forest
  may carry one more key, \<^verbatim>\<open>children\<close>: a node is a record together with an optional
  list of nodes, \<open>None\<close> when the key is absent.

  Dictionaries are values here, compared by value. The identifiers of a table are unique, so
  two different dictionaries of one input differ in their \<^verbatim>\<open>id\<close>, and the equality that
  \<^verbatim>\<open>list.remove\<close> uses coincides with object identity on such inputs: there the model is
  the code. On an input with two equal dictionaries the code can remove the one and attach
  the other, which the values do not tell apart; what is stated here about the count of the
  records in the forest is stated for unique identifiers.
\<close>

record 'p item =
  item_id :: int
  parent_id :: "int option"
  payload :: 'p

datatype 'p node = Node (item: "'p item") (children: "'p node list option")

datatype error = ValueError | KeyError | IndexError

type_synonym 'p state = "'p node list \<times> 'p item list"

section \<open>The materializer\<close>

text \<open>\<^verbatim>\<open>not item["parent_id"]\<close>: Python's truth test on an integer or \<^verbatim>\<open>None\<close>.\<close>

definition py_not :: "int option \<Rightarrow> bool" where
  "py_not v = (case v of None \<Rightarrow> True | Some n \<Rightarrow> n = 0)"

text \<open>\<^verbatim>\<open>list.remove(x)\<close> deletes the first element equal to \<open>x\<close> and raises
  \<^verbatim>\<open>ValueError\<close> when there is none.\<close>

definition list_remove :: "'a list \<Rightarrow> 'a \<Rightarrow> error + 'a list" where
  "list_remove xs x = (if x \<in> set xs then Inr (remove1 x xs) else Inl ValueError)"

text \<open>
  \<^verbatim>\<open>find_parent(tree, item)\<close>: the first node, depth first, whose \<^verbatim>\<open>id\<close> equals the
  \<^verbatim>\<open>parent_id\<close> of \<open>item\<close>. The children of a node are searched only when its own
  \<^verbatim>\<open>id\<close> differs; falling off the loop returns \<^verbatim>\<open>None\<close>.
\<close>

fun find_parent :: "'p node list \<Rightarrow> 'p item \<Rightarrow> 'p node option" where
  "find_parent [] it = None"
| "find_parent (Node r None # ps) it =
     (if Some (item_id r) = parent_id it then Some (Node r None)
      else find_parent ps it)"
| "find_parent (Node r (Some cs) # ps) it =
     (if Some (item_id r) = parent_id it then Some (Node r (Some cs))
      else (case find_parent cs it of
              Some res \<Rightarrow> Some res
            | None \<Rightarrow> find_parent ps it))"

text \<open>
  The body of the inner loop mutates the node that \<^verbatim>\<open>find_parent\<close> returned:
  \<^verbatim>\<open>children\<close> is created when the key is absent and \<open>item\<close> is appended to it. On
  values, that is the forest with the node at that position replaced; \<open>attach\<close> walks the
  forest as \<^verbatim>\<open>find_parent\<close> does and returns the updated forest, \<open>None\<close> when
  \<^verbatim>\<open>find_parent\<close> finds nothing.
\<close>

fun attach :: "'p node list \<Rightarrow> 'p item \<Rightarrow> 'p node list option" where
  "attach [] it = None"
| "attach (Node r None # ps) it =
     (if Some (item_id r) = parent_id it then Some (Node r (Some [Node it None]) # ps)
      else map_option ((#) (Node r None)) (attach ps it))"
| "attach (Node r (Some cs) # ps) it =
     (if Some (item_id r) = parent_id it then Some (Node r (Some (cs @ [Node it None])) # ps)
      else (case attach cs it of
              Some cs' \<Rightarrow> Some (Node r (Some cs') # ps)
            | None \<Rightarrow> map_option ((#) (Node r (Some cs))) (attach ps it)))"

text \<open>The first loop of \<^verbatim>\<open>list_to_tree\<close>, over the copy \<^verbatim>\<open>list[:]\<close>: a record whose
  \<^verbatim>\<open>parent_id\<close> is falsy is appended to the forest and removed from the list.\<close>

fun collect_roots :: "'p item list \<Rightarrow> 'p state \<Rightarrow> error + 'p state" where
  "collect_roots [] s = Inr s"
| "collect_roots (it # its) (tree, lst) =
     (if py_not (parent_id it) then
        (case list_remove lst it of
           Inl e \<Rightarrow> Inl e
         | Inr lst' \<Rightarrow> collect_roots its (tree @ [Node it None], lst'))
      else collect_roots its (tree, lst))"

text \<open>One run of the inner \<^verbatim>\<open>for\<close> loop, over the copy \<^verbatim>\<open>list[:]\<close> taken when the
  run starts: a record whose parent is found is attached and removed from the list, any
  other is skipped.\<close>

fun attach_pass :: "'p item list \<Rightarrow> 'p state \<Rightarrow> error + 'p state" where
  "attach_pass [] s = Inr s"
| "attach_pass (it # its) (tree, lst) =
     (case attach tree it of
        None \<Rightarrow> attach_pass its (tree, lst)
      | Some tree' \<Rightarrow>
          (case list_remove lst it of
             Inl e \<Rightarrow> Inl e
           | Inr lst' \<Rightarrow> attach_pass its (tree', lst')))"

text \<open>The \<^verbatim>\<open>while len(list) > 0\<close> loop. It need not terminate: \<open>None\<close> is the value of
  a run that never returns.\<close>

partial_function (option) attach_loop :: "'p state \<Rightarrow> (error + 'p state) option" where
  "attach_loop s =
     (if length (snd s) > 0 then
        (case attach_pass (snd s) s of
           Inl e \<Rightarrow> Some (Inl e)
         | Inr s' \<Rightarrow> attach_loop s')
      else Some (Inr s))"

declare attach_loop.simps [code]

text \<open>
  \<^verbatim>\<open>list_to_tree(list)\<close>. The result is \<open>None\<close> when the call never returns,
  \<open>Some (Inl e)\<close> when it raises, and \<open>Some (Inr (tree, lst))\<close> when it returns
  \<open>tree\<close>, leaving \<open>lst\<close> in the list object it was given.
\<close>

definition list_to_tree :: "'p item list \<Rightarrow> (error + 'p state) option" where
  "list_to_tree xs =
     (case collect_roots xs ([], xs) of
        Inl e \<Rightarrow> Some (Inl e)
      | Inr s \<Rightarrow> attach_loop s)"

section \<open>Notions used to state the properties\<close>

text \<open>Flattening a forest back to a flat list: each record, without its \<^verbatim>\<open>children\<close>,
  followed by the records under it, depth first.\<close>

fun flatten :: "'p node list \<Rightarrow> 'p item list" where
  "flatten [] = []"
| "flatten (Node r None # ps) = r # flatten ps"
| "flatten (Node r (Some cs) # ps) = r # flatten cs @ flatten ps"

text \<open>
  The parent graph of an input is acyclic and fully resolvable when every record reaches a
  record with a null \<^verbatim>\<open>parent_id\<close> by going from a record to a record of the input
  whose \<^verbatim>\<open>id\<close> is its \<^verbatim>\<open>parent_id\<close>. \<open>resolves n xs r\<close>: the record \<open>r\<close> does so in at
  most \<open>n\<close> steps. A path that repeats no record has fewer steps than the input has
  records, so the length of the input bounds the search.
\<close>

fun resolves :: "nat \<Rightarrow> 'p item list \<Rightarrow> 'p item \<Rightarrow> bool" where
  "resolves 0 xs r = (parent_id r = None)"
| "resolves (Suc n) xs r =
     (case parent_id r of
        None \<Rightarrow> True
      | Some pid \<Rightarrow> list_ex (\<lambda>p. item_id p = pid \<and> resolves n xs p) xs)"

definition resolvable :: "'p item list \<Rightarrow> bool" where
  "resolvable xs = list_all (resolves (length xs) xs) xs"

text \<open>The records that the first loop of \<^verbatim>\<open>list_to_tree\<close> takes as roots.\<close>

definition is_root :: "'p item \<Rightarrow> bool" where
  "is_root r = py_not (parent_id r)"

text \<open>Every parent-child link of a forest is right: a \<^verbatim>\<open>children\<close> list that is present
  is not empty, and each record in it has a truthy \<^verbatim>\<open>parent_id\<close> equal to the
  \<^verbatim>\<open>id\<close> of the node that holds the list.\<close>

fun links_ok :: "'p node list \<Rightarrow> bool" where
  "links_ok [] = True"
| "links_ok (Node r None # ps) = links_ok ps"
| "links_ok (Node r (Some cs) # ps) =
     (cs \<noteq> [] \<and>
      list_all (\<lambda>c. parent_id c = Some (item_id r) \<and> \<not> is_root c) (map item cs) \<and>
      links_ok cs \<and> links_ok ps)"

text \<open>All nodes of a forest, at every depth, and the records directly under a node.\<close>

fun all_nodes :: "'p node list \<Rightarrow> 'p node list" where
  "all_nodes [] = []"
| "all_nodes (Node r None # ps) = Node r None # all_nodes ps"
| "all_nodes (Node r (Some cs) # ps) = Node r (Some cs) # all_nodes cs @ all_nodes ps"

definition child_items :: "'p node \<Rightarrow> 'p item list" where
  "child_items p = (case children p of None \<Rightarrow> [] | Some cs \<Rightarrow> map item cs)"

text \<open>What holds of the forest and the list before and after every pass of the
  \<^verbatim>\<open>while\<close> loop on the input \<open>xs\<close>: together they hold the records of the input, each
  once; the roots of the forest are the root records of the input, in input order; the links
  of the forest are right; no root record is left in the list.\<close>

definition state_inv :: "'p item list \<Rightarrow> 'p state \<Rightarrow> bool" where
  "state_inv xs s =
     (mset (flatten (fst s)) + mset (snd s) = mset xs \<and>
      map item (fst s) = filter is_root xs \<and>
      links_ok (fst s) \<and>
      (\<forall>r\<in>set (snd s). \<not> is_root r))"

text \<open>A record with no column besides \<^verbatim>\<open>id\<close> and \<^verbatim>\<open>parent_id\<close>, for the concrete
  scenarios.\<close>

definition plain :: "int \<Rightarrow> int option \<Rightarrow> unit item" where
  "plain i p = \<lparr>item_id = i, parent_id = p, payload = ()\<rparr>"

text \<open>The states of the \<^verbatim>\<open>while\<close> loop of \<^verbatim>\<open>list_to_tree\<close> on the input \<open>xs\<close>: the state
  the first loop leaves, and the state after each further pass.\<close>

inductive loop_state :: "'p item list \<Rightarrow> 'p state \<Rightarrow> bool" for xs :: "'p item list" where
  first: "collect_roots xs ([], xs) = Inr s \<Longrightarrow> loop_state xs s"
| pass: "loop_state xs s \<Longrightarrow> snd s \<noteq> [] \<Longrightarrow> attach_pass (snd s) s = Inr s' \<Longrightarrow> loop_state xs s'"

text \<open>A record is nested under its parent: some node of the forest, at any depth, has the
  \<^verbatim>\<open>id\<close> that the record's \<^verbatim>\<open>parent_id\<close> names and holds the record in its
  \<^verbatim>\<open>children\<close>.\<close>

definition nested_under :: "'p node list \<Rightarrow> 'p item \<Rightarrow> bool" where
  "nested_under forest r =
     list_ex (\<lambda>p. Some (item_id (item p)) = parent_id r \<and> r \<in> set (child_items p))
       (all_nodes forest)"

text \<open>Every record of the forest with a non-null \<^verbatim>\<open>parent_id\<close> is nested under its
  parent; and the same for every record with a truthy \<^verbatim>\<open>parent_id\<close>.\<close>

definition non_null_nested :: "'p node list \<Rightarrow> bool" where
  "non_null_nested forest =
     list_all (\<lambda>r. parent_id r = None \<or> nested_under forest r) (flatten forest)"

definition truthy_nested :: "'p node list \<Rightarrow> bool" where
  "truthy_nested forest =
     list_all (\<lambda>r. is_root r \<or> nested_under forest r) (flatten forest)"

text \<open>Attaching a sequence of records in turn, each of which finds its parent.\<close>

fun attach_all :: "'p node list \<Rightarrow> 'p item list \<Rightarrow> 'p node list option" where
  "attach_all tree [] = Some tree"
| "attach_all tree (it # its) =
     (case attach tree it of None \<Rightarrow> None | Some tree' \<Rightarrow> attach_all tree' its)"

text \<open>The nodes directly under a node, the forest with every \<^verbatim>\<open>children\<close> key removed from
  its roots, and the records below the roots, depth first.\<close>

definition kids :: "'p node \<Rightarrow> 'p node list" where
  "kids p = (case children p of None \<Rightarrow> [] | Some cs \<Rightarrow> cs)"

definition bare_roots :: "'p node list \<Rightarrow> 'p node list" where
  "bare_roots forest = map (\<lambda>n. Node (item n) None) forest"

definition below_roots :: "'p node list \<Rightarrow> 'p item list" where
  "below_roots forest = concat (map (\<lambda>n. flatten (kids n)) forest)"

text \<open>The \<^verbatim>\<open>children\<close> value of a node after the nodes \<open>cs\<close> have been appended to it
  one by one: unchanged when there is none.\<close>

definition add_children :: "'p node list option \<Rightarrow> 'p node list \<Rightarrow> 'p node list option" where
  "add_children c0 cs =
     (if cs = [] then c0 else Some ((case c0 of None \<Rightarrow> [] | Some pre \<Rightarrow> pre) @ cs))"

text \<open>The identifiers of all records of a forest, as \<^verbatim>\<open>parent_id\<close> values.\<close>

abbreviation ids :: "'p node list \<Rightarrow> int option set" where
  "ids forest \<equiv> Some ` item_id ` set (flatten forest)"

section \<open>The date-bucketed listing of tree holes\<close>






















section \<open>Properties of the search and of one pass\<close>

lemma flatten_append: "flatten (ps @ qs) = flatten ps @ flatten qs"
  by (induction ps rule: flatten.induct) simp_all

lemma find_parent_None_iff:
  "find_parent tree it = None \<longleftrightarrow> parent_id it \<notin> Some ` item_id ` set (flatten tree)"
  by (induction tree it rule: find_parent.induct) (auto split: option.splits)

lemma find_parent_Some_id:
  "find_parent tree it = Some p \<Longrightarrow> Some (item_id (item p)) = parent_id it"
  by (induction tree it rule: find_parent.induct) (auto split: option.splits if_splits)

lemma attach_None_iff: "attach tree it = None \<longleftrightarrow> find_parent tree it = None"
  by (induction tree it rule: attach.induct) (auto split: option.splits)

lemma attach_flatten_mset:
  "attach tree it = Some tree' \<Longrightarrow> mset (flatten tree') = add_mset it (mset (flatten tree))"
  by (induction tree it arbitrary: tree' rule: attach.induct)
     (auto split: option.splits if_splits simp: flatten_append)

lemma attach_pass_skip:
  "\<forall>it\<in>set its. attach tree it = None \<Longrightarrow> attach_pass its (tree, lst) = Inr (tree, lst)"
  by (induction its) auto

lemma attach_loop_stuck:
  assumes "lst \<noteq> []" and "\<forall>it\<in>set lst. find_parent tree it = None"
  shows "attach_loop (tree, lst) = None"
proof -
  let ?stuck = "\<lambda>s::'a state. snd s \<noteq> [] \<and> (\<forall>it\<in>set (snd s). find_parent (fst s) it = None)"
  have ns: "\<not> ?stuck s" if h: "attach_loop s = Some y" for s y
  proof (rule attach_loop.raw_induct [where P = "\<lambda>s y. \<not> ?stuck s", OF _ h])
    fix loop :: "'a state \<Rightarrow> (error + 'a state) option" and s y
    assume ih: "\<And>s y. loop s = Some y \<Longrightarrow> \<not> ?stuck s"
      and body: "(if 0 < length (snd s)
                  then case attach_pass (snd s) s of Inl e \<Rightarrow> Some (Inl e) | Inr s' \<Rightarrow> loop s'
                  else Some (Inr s)) = Some y"
    show "\<not> ?stuck s"
    proof
      assume st: "?stuck s"
      then have "attach_pass (snd s) s = Inr s"
        using attach_pass_skip [of "snd s" "fst s" "snd s"] by (simp add: attach_None_iff)
      with body st have "loop s = Some y" by simp
      from ih [OF this] st show False by simp
    qed
  qed
  show ?thesis
  proof (cases "attach_loop (tree, lst)")
    case None
    then show ?thesis .
  next
    case (Some y)
    from ns [OF this] assms show ?thesis by simp
  qed
qed

lemma list_remove_mem: "x \<in> set xs \<Longrightarrow> list_remove xs x = Inr (remove1 x xs)"
  by (simp add: list_remove_def)

lemma collect_roots_split:
  "\<forall>r\<in>set pre. \<not> is_root r \<Longrightarrow>
   collect_roots its (tree, pre @ its) =
     Inr (tree @ map (\<lambda>r. Node r None) (filter is_root its), pre @ filter (\<lambda>r. \<not> is_root r) its)"
proof (induction its arbitrary: tree pre)
  case Nil
  then show ?case by simp
next
  case (Cons it its)
  show ?case
  proof (cases "is_root it")
    case True
    with Cons.prems have "it \<notin> set pre" by auto
    then have "list_remove (pre @ it # its) it = Inr (pre @ its)"
      by (simp add: list_remove_def remove1_append)
    with True Cons.IH [OF Cons.prems, of "tree @ [Node it None]"] show ?thesis
      by (simp add: is_root_def)
  next
    case False
    with Cons.prems have "\<forall>r\<in>set (pre @ [it]). \<not> is_root r" by simp
    from Cons.IH [OF this, of tree] False show ?thesis
      by (simp add: is_root_def)
  qed
qed

lemma collect_roots_eq:
  "collect_roots xs ([], xs) =
     Inr (map (\<lambda>r. Node r None) (filter is_root xs), filter (\<lambda>r. \<not> is_root r) xs)"
  using collect_roots_split [of "[]" xs "[]"] by simp

lemma attach_pass_inv:
  "mset its \<subseteq># mset lst \<Longrightarrow>
   \<exists>tree' lst'. attach_pass its (tree, lst) = Inr (tree', lst')
     \<and> mset (flatten tree') + mset lst' = mset (flatten tree) + mset lst
     \<and> mset lst' \<subseteq># mset lst
     \<and> ((\<exists>it\<in>set its. find_parent tree it \<noteq> None) \<longrightarrow> length lst' < length lst)"
proof (induction its arbitrary: tree lst)
  case Nil
  then show ?case by simp
next
  case (Cons it its)
  from Cons.prems have sub: "mset its \<subseteq># mset lst - {#it#}" and mem: "it \<in> set lst"
    by (auto simp: insert_subset_eq_iff)
  show ?case
  proof (cases "attach tree it")
    case None
    have "mset lst - {#it#} \<subseteq># mset lst" by simp
    with sub have "mset its \<subseteq># mset lst" by (rule subset_mset.order_trans)
    from Cons.IH [OF this, of tree] obtain tree' lst' where
      r: "attach_pass its (tree, lst) = Inr (tree', lst')"
      and m: "mset (flatten tree') + mset lst' = mset (flatten tree) + mset lst"
      and s: "mset lst' \<subseteq># mset lst"
      and p: "(\<exists>it\<in>set its. find_parent tree it \<noteq> None) \<longrightarrow> length lst' < length lst"
      by blast
    from None have "find_parent tree it = None" by (simp add: attach_None_iff)
    with p have "(\<exists>it\<in>set (it # its). find_parent tree it \<noteq> None) \<longrightarrow> length lst' < length lst"
      by auto
    with r m s None show ?thesis by simp
  next
    case (Some tree1)
    from sub have "mset its \<subseteq># mset (remove1 it lst)" by simp
    from Cons.IH [OF this, of tree1] obtain tree' lst' where
      r: "attach_pass its (tree1, remove1 it lst) = Inr (tree', lst')"
      and m: "mset (flatten tree') + mset lst' = mset (flatten tree1) + mset (remove1 it lst)"
      and s: "mset lst' \<subseteq># mset (remove1 it lst)"
      by blast
    from s have "size (mset lst') \<le> size (mset (remove1 it lst))" by (rule size_mset_mono)
    with mem have "length lst' \<le> length lst - 1"
      by (simp add: size_Diff_singleton)
    moreover from mem have "0 < length lst"
      by (rule length_pos_if_in_set)
    ultimately have len: "length lst' < length lst" by arith
    have "mset (remove1 it lst) \<subseteq># mset lst" by simp
    with s have s': "mset lst' \<subseteq># mset lst"
      by (rule subset_mset.order_trans)
    from m mem have "mset (flatten tree') + mset lst' = mset (flatten tree) + mset lst"
      by (simp add: attach_flatten_mset [OF Some])
    with r len s' Some mem show ?thesis
      by (simp add: list_remove_mem)
  qed
qed

lemma attach_loop_invariant:
  assumes run: "attach_loop s = Some (Inr s')"
    and init: "I s"
    and step: "\<And>s s'. I s \<Longrightarrow> snd s \<noteq> [] \<Longrightarrow> attach_pass (snd s) s = Inr s' \<Longrightarrow> I s'"
  shows "I s' \<and> snd s' = []"
proof -
  let ?Q = "\<lambda>y. case y of Inl e \<Rightarrow> True | Inr (s'::'a state) \<Rightarrow> I s' \<and> snd s' = []"
  have gen: "I s \<longrightarrow> ?Q y" if h: "attach_loop s = Some y" for s y
  proof (rule attach_loop.raw_induct [where P = "\<lambda>s y. I s \<longrightarrow> ?Q y", OF _ h])
    fix loop :: "'a state \<Rightarrow> (error + 'a state) option" and s y
    assume ih: "\<And>s y. loop s = Some y \<Longrightarrow> I s \<longrightarrow> ?Q y"
      and body: "(if 0 < length (snd s)
                  then case attach_pass (snd s) s of Inl e \<Rightarrow> Some (Inl e) | Inr s' \<Rightarrow> loop s'
                  else Some (Inr s)) = Some y"
    show "I s \<longrightarrow> ?Q y"
    proof
      assume i: "I s"
      show "?Q y"
      proof (cases "snd s = []")
        case True
        with body i show ?thesis by auto
      next
        case False
        show ?thesis
        proof (cases "attach_pass (snd s) s")
          case (Inl e)
          with body False show ?thesis by auto
        next
          case (Inr s1)
          with body False have "loop s1 = Some y" by simp
          from ih [OF this] step [OF i False Inr] show ?thesis by simp
        qed
      qed
    qed
  qed
  from gen [OF run] init show ?thesis by simp
qed

lemma attachable_exists:
  assumes "resolves n xs r" and "r \<in> set lst" and "\<forall>r\<in>set lst. \<not> is_root r"
    and "set xs \<subseteq> set (flatten tree) \<union> set lst"
  shows "\<exists>it\<in>set lst. find_parent tree it \<noteq> None"
  using assms(1,2)
proof (induction n arbitrary: r)
  case 0
  with assms(3) show ?case by (auto simp: is_root_def py_not_def)
next
  case (Suc n)
  from Suc.prems(2) assms(3) obtain pid where pid: "parent_id r = Some pid"
    by (cases "parent_id r") (auto simp: is_root_def py_not_def)
  with Suc.prems(1) obtain p where p: "p \<in> set xs" "item_id p = pid" "resolves n xs p"
    by (auto simp: list_ex_iff)
  show ?case
  proof (cases "p \<in> set lst")
    case True
    from Suc.IH [OF p(3) True] show ?thesis .
  next
    case False
    with p(1) assms(4) have "p \<in> set (flatten tree)" by auto
    with p(2) pid have "parent_id r \<in> Some ` item_id ` set (flatten tree)" by force
    then have "find_parent tree r \<noteq> None" by (simp add: find_parent_None_iff)
    with Suc.prems(2) show ?thesis by blast
  qed
qed

lemma attach_loop_total:
  assumes "mset (flatten tree) + mset lst = mset xs"
    and "\<forall>r\<in>set lst. \<not> is_root r"
    and "\<forall>r\<in>set xs. \<exists>n. resolves n xs r"
  shows "\<exists>F. attach_loop (tree, lst) = Some (Inr (F, []))"
  using assms(1,2)
proof (induction "length lst" arbitrary: tree lst rule: less_induct)
  case less
  show ?case
  proof (cases "lst = []")
    case True
    then show ?thesis by (subst attach_loop.simps) simp
  next
    case False
    then obtain r where r: "r \<in> set lst" by (cases lst) auto
    from less.prems(1) have sets: "set xs = set (flatten tree) \<union> set lst"
      by (metis set_mset_mset set_mset_union)
    with r have "r \<in> set xs" by simp
    with assms(3) obtain n where "resolves n xs r" by blast
    from attachable_exists [OF this r less.prems(2)] sets
    have ex: "\<exists>it\<in>set lst. find_parent tree it \<noteq> None" by simp
    from attach_pass_inv [of lst lst tree] obtain tree' lst' where
      p: "attach_pass lst (tree, lst) = Inr (tree', lst')"
      and m: "mset (flatten tree') + mset lst' = mset (flatten tree) + mset lst"
      and s: "mset lst' \<subseteq># mset lst"
      and l: "(\<exists>it\<in>set lst. find_parent tree it \<noteq> None) \<longrightarrow> length lst' < length lst"
      by auto
    from l ex have len: "length lst' < length lst" by simp
    from s have "set lst' \<subseteq> set lst" by (metis set_mset_mono set_mset_mset)
    with less.prems(2) have nr: "\<forall>r\<in>set lst'. \<not> is_root r" by auto
    from m less.prems(1) have "mset (flatten tree') + mset lst' = mset xs" by simp
    from less.hyps [OF len this nr] obtain F where "attach_loop (tree', lst') = Some (Inr (F, []))"
      by blast
    with p False show ?thesis by (subst attach_loop.simps) simp
  qed
qed

lemma links_ok_append: "links_ok (ps @ qs) \<longleftrightarrow> links_ok ps \<and> links_ok qs"
  by (induction ps rule: links_ok.induct) auto

lemma attach_toplevel:
  "attach tree it = Some tree' \<Longrightarrow> map item tree' = map item tree"
  by (induction tree it arbitrary: tree' rule: attach.induct)
     (auto split: option.splits if_splits)

lemma attach_links_ok:
  "attach tree it = Some tree' \<Longrightarrow> \<not> is_root it \<Longrightarrow> links_ok tree \<Longrightarrow> links_ok tree'"
proof (induction tree it arbitrary: tree' rule: attach.induct)
  case (1 it)
  then show ?case by simp
next
  case (2 r ps it)
  then show ?case by (auto split: if_splits)
next
  case (3 r cs ps it)
  show ?case
  proof (cases "Some (item_id r) = parent_id it")
    case True
    with 3 show ?thesis by (auto simp: links_ok_append)
  next
    case False
    show ?thesis
    proof (cases "attach cs it")
      case None
      with False 3 show ?thesis by auto
    next
      case (Some cs')
      from attach_toplevel [OF Some] have m: "map item cs' = map item cs" .
      then have "cs' \<noteq> [] \<longleftrightarrow> cs \<noteq> []" by (metis map_is_Nil_conv)
      with Some False 3 m show ?thesis by auto
    qed
  qed
qed

lemma attach_pass_preserves:
  assumes "attach_pass its (tree, lst) = Inr (tree', lst')" and "P tree"
    and "\<And>t it t'. P t \<Longrightarrow> it \<in> set its \<Longrightarrow> attach t it = Some t' \<Longrightarrow> P t'"
  shows "P tree'"
  using assms
proof (induction its arbitrary: tree lst)
  case Nil
  then show ?case by simp
next
  case (Cons it its)
  have step: "P t'" if "P t" and "x \<in> set its" and "attach t x = Some t'" for t x t'
  proof (rule Cons.prems(3) [OF that(1) _ that(3)])
    from that(2) show "x \<in> set (it # its)" by simp
  qed
  show ?case
  proof (cases "attach tree it")
    case None
    with Cons.prems(1) have pass: "attach_pass its (tree, lst) = Inr (tree', lst')" by simp
    show ?thesis by (rule Cons.IH [OF pass Cons.prems(2)]) (rule step)
  next
    case (Some t1)
    with Cons.prems(1) obtain l1 where pass: "attach_pass its (t1, l1) = Inr (tree', lst')"
      by (cases "list_remove lst it") simp_all
    have "it \<in> set (it # its)" by simp
    from Cons.prems(3) [OF Cons.prems(2) this Some] have p1: "P t1" .
    show ?thesis by (rule Cons.IH [OF pass p1]) (rule step)
  qed
qed

lemma flatten_leaves: "flatten (map (\<lambda>r. Node r None) ys) = ys"
  by (induction ys) simp_all

lemma links_ok_leaves: "links_ok (map (\<lambda>r. Node r None) ys)"
  by (induction ys) simp_all

lemma item_leaves: "map item (map (\<lambda>r. Node r None) ys) = ys"
  by (induction ys) simp_all

lemma state_inv_init:
  assumes "collect_roots xs ([], xs) = Inr s"
  shows "state_inv xs s"
proof -
  from assms have s: "s = (map (\<lambda>r. Node r None) (filter is_root xs), filter (\<lambda>r. \<not> is_root r) xs)"
    by (simp add: collect_roots_eq)
  have "mset (filter is_root xs) + mset (filter (\<lambda>r. \<not> is_root r) xs) = mset xs"
    by (induction xs) simp_all
  then show ?thesis
    unfolding state_inv_def s fst_conv snd_conv flatten_leaves item_leaves
    by (simp add: links_ok_leaves)
qed

lemma state_inv_step:
  assumes "state_inv xs s" and "attach_pass (snd s) s = Inr s'"
  shows "state_inv xs s'"
proof -
  obtain tree lst where s: "s = (tree, lst)" by (cases s)
  obtain tree' lst' where s': "s' = (tree', lst')" by (cases s')
  from assms(2) s s' have p: "attach_pass lst (tree, lst) = Inr (tree', lst')" by simp
  from assms(1) s have nr: "\<forall>r\<in>set lst. \<not> is_root r" by (simp add: state_inv_def)
  from attach_pass_inv [of lst lst tree] p
  have m: "mset (flatten tree') + mset lst' = mset (flatten tree) + mset lst"
    and sub: "mset lst' \<subseteq># mset lst" by auto
  from sub have "set lst' \<subseteq> set lst" by (metis set_mset_mono set_mset_mset)
  with nr have nr': "\<forall>r\<in>set lst'. \<not> is_root r" by auto
  from assms(1) s have lt: "links_ok tree" by (simp add: state_inv_def)
  have l: "links_ok tree'" if "links_ok tree"
  proof (rule attach_pass_preserves [OF p, where P = links_ok])
    show "links_ok tree" by fact
  next
    fix t it t' assume "links_ok t" "it \<in> set lst" "attach t it = Some t'"
    with nr show "links_ok t'" by (auto intro: attach_links_ok)
  qed
  have "map item tree = map item tree" ..
  then have t: "map item tree' = map item tree"
    by (rule attach_pass_preserves [OF p, where P = "\<lambda>t. map item t = map item tree"])
       (simp add: attach_toplevel)
  from assms(1) s have m0: "mset (flatten tree) + mset lst = mset xs"
    and t0: "map item tree = filter is_root xs"
    by (simp_all add: state_inv_def)
  have c1: "mset (flatten tree') + mset lst' = mset xs" by (rule trans [OF m m0])
  have c2: "map item tree' = filter is_root xs" by (rule trans [OF t t0])
  show ?thesis
    unfolding state_inv_def s' fst_conv snd_conv
    by (intro conjI c1 c2 l [OF lt] nr')
qed

lemma list_to_tree_result:
  assumes "list_to_tree xs = Some (Inr (F, l))"
  shows "l = [] \<and> state_inv xs (F, [])"
proof -
  obtain s where c: "collect_roots xs ([], xs) = Inr s"
    by (simp add: collect_roots_eq)
  with assms have run: "attach_loop s = Some (Inr (F, l))"
    by (simp add: list_to_tree_def)
  have "state_inv xs (F, l) \<and> snd (F, l) = []"
  proof (rule attach_loop_invariant [where I = "state_inv xs", OF run])
    show "state_inv xs s" by (rule state_inv_init [OF c])
  next
    fix s s' :: "'a state"
    assume "state_inv xs s" and "attach_pass (snd s) s = Inr s'"
    then show "state_inv xs s'" by (rule state_inv_step)
  qed
  then show ?thesis by auto
qed

lemma resolvable_resolves: "resolvable xs \<Longrightarrow> \<forall>r\<in>set xs. \<exists>n. resolves n xs r"
  by (auto simp: resolvable_def list_all_iff)

lemma list_to_tree_total:
  assumes "\<forall>r\<in>set xs. \<exists>n. resolves n xs r"
  shows "\<exists>F. list_to_tree xs = Some (Inr (F, []))"
proof -
  obtain tree lst where c: "collect_roots xs ([], xs) = Inr (tree, lst)"
    by (simp add: collect_roots_eq)
  from state_inv_init [OF c] have "mset (flatten tree) + mset lst = mset xs"
    and "\<forall>r\<in>set lst. \<not> is_root r"
    by (simp_all add: state_inv_def)
  from attach_loop_total [OF this assms] c show ?thesis
    by (simp add: list_to_tree_def)
qed

lemma plain_simps:
  "item_id (plain i p) = i" "parent_id (plain i p) = p" "(plain i p = plain j q) = (i = j \<and> p = q)"
  by (simp_all add: plain_def)

lemma chain_resolvable:
  "resolvable [plain 1 None, plain 2 (Some 1), plain 3 (Some 2), plain 4 None]"
  by (simp add: resolvable_def plain_simps eval_nat_numeral)

lemma chain_result:
  "list_to_tree [plain 1 None, plain 2 (Some 1), plain 3 (Some 2), plain 4 None] =
     Some (Inr ([Node (plain 1 None) (Some [Node (plain 2 (Some 1)) (Some [Node (plain 3 (Some 2)) None])]),
                 Node (plain 4 None) None], []))"
  unfolding list_to_tree_def
  apply (simp add: py_not_def list_remove_def plain_simps)
  apply (subst attach_loop.simps)
  apply (simp add: list_remove_def plain_simps)
  apply (subst attach_loop.simps)
  apply simp
  done

lemma loop_state_inv: "loop_state xs s \<Longrightarrow> state_inv xs s"
proof (induction rule: loop_state.induct)
  case (first s)
  then show ?case by (rule state_inv_init)
next
  case (pass s s')
  from pass.IH pass.hyps(3) show ?case by (rule state_inv_step)
qed


lemma child_items_simps:
  "child_items (Node r None) = []" "child_items (Node r (Some cs)) = map item cs"
  by (simp_all add: child_items_def)

lemma flatten_set:
  "set (flatten forest) =
     item ` set forest \<union> (\<Union>p\<in>set (all_nodes forest). set (child_items p))"
proof (induction forest rule: flatten.induct)
  case 1
  show ?case by simp
next
  case (2 r ps)
  then show ?case by (simp add: child_items_simps)
next
  case (3 r cs ps)
  then show ?case by (simp add: child_items_simps) blast
qed

lemma flatten_toplevel_or_child:
  "r \<in> set (flatten forest) \<Longrightarrow>
   r \<in> set (map item forest) \<or> (\<exists>p\<in>set (all_nodes forest). r \<in> set (child_items p))"
  by (simp add: flatten_set)

lemma links_ok_child:
  "links_ok forest \<Longrightarrow> p \<in> set (all_nodes forest) \<Longrightarrow> c \<in> set (child_items p) \<Longrightarrow>
   parent_id c = Some (item_id (item p)) \<and> \<not> is_root c"
proof (induction forest rule: links_ok.induct)
  case 1
  then show ?case by simp
next
  case (2 r ps)
  then show ?case by (auto simp: child_items_simps)
next
  case (3 r cs ps)
  from "3.prems"(2) consider "p = Node r (Some cs)" | "p \<in> set (all_nodes cs)" | "p \<in> set (all_nodes ps)"
    by auto
  then show ?case
  proof cases
    case 1
    with "3.prems" show ?thesis by (auto simp: child_items_simps list_all_iff)
  next
    case 2
    with "3.prems" "3.IH"(1) show ?thesis by simp
  next
    case 3
    with "3.prems" "3.IH"(2) show ?thesis by simp
  qed
qed

lemma state_inv_truthy_nested:
  assumes "state_inv xs (forest, lst)"
  shows "truthy_nested forest"
proof -
  from assms have l: "links_ok forest" and t: "map item forest = filter is_root xs"
    by (simp_all add: state_inv_def)
  have "is_root r \<or> nested_under forest r" if "r \<in> set (flatten forest)" for r
  proof -
    from flatten_toplevel_or_child [OF that] show ?thesis
    proof
      assume "r \<in> set (map item forest)"
      with t show ?thesis by simp
    next
      assume "\<exists>p\<in>set (all_nodes forest). r \<in> set (child_items p)"
      then obtain p where p: "p \<in> set (all_nodes forest)" "r \<in> set (child_items p)" by blast
      from links_ok_child [OF l p] have "Some (item_id (item p)) = parent_id r" by simp
      with p have "nested_under forest r" by (auto simp: nested_under_def list_ex_iff)
      then show ?thesis ..
    qed
  qed
  then show ?thesis by (simp add: truthy_nested_def list_all_iff)
qed

lemma zero_parent_result:
  "list_to_tree [plain 0 None, plain 5 (Some 0)] =
     Some (Inr ([Node (plain 0 None) None, Node (plain 5 (Some 0)) None], []))"
  unfolding list_to_tree_def
  apply (simp add: py_not_def list_remove_def plain_simps)
  apply (subst attach_loop.simps)
  apply simp
  done

section \<open>Nesting a flattened forest again\<close>

lemma attach_not_found:
  "parent_id it \<notin> ids tree \<Longrightarrow> attach tree it = None"
  by (simp add: attach_None_iff find_parent_None_iff)

lemma attach_past_node:
  assumes "parent_id it \<notin> ids [n]"
  shows "attach (n # tree) it = map_option ((#) n) (attach tree it)"
proof (cases n)
  case (Node r c)
  show ?thesis
  proof (cases c)
    case None
    with Node assms show ?thesis by auto
  next
    case (Some cs)
    with Node assms have "parent_id it \<notin> ids cs" and "Some (item_id r) \<noteq> parent_id it" by auto
    with Node Some show ?thesis by (simp add: attach_not_found)
  qed
qed

lemma attach_in_children:
  "Some (item_id r) \<noteq> parent_id it \<Longrightarrow> attach cs it = Some cs' \<Longrightarrow>
   attach (Node r (Some cs) # tree) it = Some (Node r (Some cs') # tree)"
  by simp

lemma attach_append_found:
  "attach ps it = Some ps' \<Longrightarrow> attach (ps @ qs) it = Some (ps' @ qs)"
  by (induction ps it arbitrary: ps' rule: attach.induct)
     (auto split: if_splits option.splits)

lemma attach_all_append:
  "attach_all tree (as @ bs) =
     (case attach_all tree as of None \<Rightarrow> None | Some tree' \<Rightarrow> attach_all tree' bs)"
  by (induction as arbitrary: tree) (auto split: option.splits)

lemma attach_all_past_node:
  "\<forall>it\<in>set its. parent_id it \<notin> ids [n] \<Longrightarrow>
   attach_all (n # tree) its = map_option ((#) n) (attach_all tree its)"
proof (induction its arbitrary: tree)
  case Nil
  show ?case by simp
next
  case (Cons it its)
  then have a: "attach (n # tree) it = map_option ((#) n) (attach tree it)"
    by (simp add: attach_past_node)
  show ?case
  proof (cases "attach tree it")
    case None
    with a show ?thesis by simp
  next
    case (Some t1)
    with a Cons show ?thesis by simp
  qed
qed

lemma attach_all_in_children:
  assumes "attach_all X its = Some X'"
    and "\<forall>it\<in>set its. parent_id it \<noteq> Some (item_id r) \<and> parent_id it \<notin> ids pre"
  shows "attach_all (Node r (Some (pre @ X)) # tree) its = Some (Node r (Some (pre @ X')) # tree)"
  using assms
proof (induction its arbitrary: X)
  case Nil
  then show ?case by simp
next
  case (Cons it its)
  from Cons.prems(1) obtain X1 where x1: "attach X it = Some X1" and rest: "attach_all X1 its = Some X'"
    by (auto split: option.splits)
  from Cons.prems(2) have np: "parent_id it \<notin> ids pre" and nr: "Some (item_id r) \<noteq> parent_id it"
    by auto
  have "attach (pre @ X) it = Some (pre @ X1)"
  proof (cases "pre = []")
    case True
    with x1 show ?thesis by simp
  next
    case False
    show ?thesis using np x1
    proof (induction pre)
      case Nil
      then show ?case by simp
    next
      case (Cons p pre)
      from Cons.prems(1) have "parent_id it \<notin> ids [p]" and "parent_id it \<notin> ids pre"
        by (auto simp: flatten_append [of "[p]" pre, simplified])
      with Cons.IH Cons.prems(2) show ?case by (simp add: attach_past_node)
    qed
  qed
  with nr have "attach (Node r (Some (pre @ X)) # tree) it = Some (Node r (Some (pre @ X1)) # tree)"
    by (rule attach_in_children)
  moreover from Cons.prems(2) have "\<forall>it\<in>set its. parent_id it \<noteq> Some (item_id r) \<and> parent_id it \<notin> ids pre"
    by simp
  from Cons.IH [OF rest this]
  have "attach_all (Node r (Some (pre @ X1)) # tree) its = Some (Node r (Some (pre @ X')) # tree)" .
  ultimately show ?case by simp
qed

lemma kids_simps: "kids (Node r None) = []" "kids (Node r (Some cs)) = cs"
  by (simp_all add: kids_def)

lemma flatten_Cons: "flatten (n # ps) = item n # flatten (kids n) @ flatten ps"
proof (cases n)
  case (Node r c)
  then show ?thesis by (cases c) (simp_all add: kids_simps)
qed

lemma items_all_nodes: "map item (all_nodes forest) = flatten forest"
  by (induction forest rule: flatten.induct) simp_all

lemma parents_below:
  assumes "links_ok cs" and "\<forall>c\<in>set cs. parent_id (item c) = Some p0"
    and "it \<in> set (flatten cs)"
  shows "parent_id it = Some p0 \<or> parent_id it \<in> ids cs"
proof -
  from flatten_toplevel_or_child [OF assms(3)] show ?thesis
  proof
    assume "it \<in> set (map item cs)"
    with assms(2) show ?thesis by auto
  next
    assume "\<exists>p\<in>set (all_nodes cs). it \<in> set (child_items p)"
    then obtain p where p: "p \<in> set (all_nodes cs)" "it \<in> set (child_items p)" by blast
    from links_ok_child [OF assms(1) p] have "parent_id it = Some (item_id (item p))" by simp
    moreover from p(1) have "item p \<in> set (map item (all_nodes cs))" by simp
    then have "item p \<in> set (flatten cs)" by (simp only: items_all_nodes)
    ultimately show ?thesis by simp
  qed
qed

lemma attach_here:
  "Some (item_id r) = parent_id it \<Longrightarrow>
   attach (Node r c0 # tree) it = Some (Node r (Some (kids (Node r c0) @ [Node it None])) # tree)"
  by (cases c0) (simp_all add: kids_simps)

lemma add_children_snoc:
  "add_children (Some (kids (Node r c0) @ [n])) cs = add_children c0 (n # cs)"
  by (simp add: add_children_def kids_def split: option.splits)

lemma flatten_snoc_child:
  "flatten (Node r (Some (kids (Node r c0) @ [n])) # cs) = flatten (Node r c0 # n # cs)"
  by (simp add: flatten_Cons [of "Node r c0"] flatten_Cons [of n] flatten_append kids_simps)

lemma rebuild_children:
  assumes "links_ok cs" and "\<forall>c\<in>set cs. parent_id (item c) = Some (item_id r)"
    and "distinct (map item_id (flatten (Node r c0 # cs)))"
  shows "attach_all (Node r c0 # tree) (flatten cs) = Some (Node r (add_children c0 cs) # tree)"
  using assms
proof (induction cs arbitrary: r c0 tree rule: flatten.induct)
  case 1
  show ?case by (simp add: add_children_def)
next
  case (2 c cs)
  let ?c1 = "Some (kids (Node r c0) @ [Node c None])"
  from "2.prems"(2) have "Some (item_id r) = parent_id c" by simp
  then have a1: "attach (Node r c0 # tree) c = Some (Node r ?c1 # tree)" by (rule attach_here)
  from "2.prems"(1) have l: "links_ok cs" by simp
  from "2.prems"(2) have t: "\<forall>c\<in>set cs. parent_id (item c) = Some (item_id r)" by simp
  from "2.prems"(3) have d: "distinct (map item_id (flatten (Node r ?c1 # cs)))"
    by (simp only: flatten_snoc_child)
  from "2.IH" [OF l t d] a1 show ?case
    by (simp add: add_children_snoc)
next
  case (3 c cc cs)
  let ?K = "kids (Node r c0)"
  let ?c1 = "Some (?K @ [Node c None])"
  let ?c2 = "Some (?K @ [Node c (Some cc)])"
  from "3.prems"(2) have "Some (item_id r) = parent_id c" by simp
  then have a1: "attach (Node r c0 # tree) c = Some (Node r ?c1 # tree)" by (rule attach_here)
  from "3.prems"(1) have lcc: "links_ok cc" and lcs: "links_ok cs" and ne: "cc \<noteq> []"
    and tcc: "\<forall>c'\<in>set cc. parent_id (item c') = Some (item_id c)"
    by (simp_all add: list_all_iff)
  from "3.prems"(2) have tcs: "\<forall>c\<in>set cs. parent_id (item c) = Some (item_id r)" by simp
  have fl: "flatten (Node r c0 # Node c (Some cc) # cs) =
              item r' # flatten ?K @ c # flatten cc @ flatten cs" if "r' = Node r c0" for r'
    using that by (simp add: flatten_Cons [of "Node r c0"])
  from "3.prems"(3) have dall: "distinct (map item_id (r # flatten ?K @ c # flatten cc @ flatten cs))"
    using fl [OF refl] by simp
  then have dcc: "distinct (map item_id (flatten (Node c None # cc)))" by simp
  from "3.IH"(1) [OF lcc tcc dcc, of "[]"] ne
  have ih1: "attach_all [Node c None] (flatten cc) = Some [Node c (Some cc)]"
    by (simp add: add_children_def)
  have side: "parent_id it \<noteq> Some (item_id r) \<and> parent_id it \<notin> ids ?K" if "it \<in> set (flatten cc)" for it
  proof -
    from parents_below [OF lcc tcc that]
    have "parent_id it = Some (item_id c) \<or> parent_id it \<in> ids cc" .
    then show ?thesis
    proof
      assume "parent_id it = Some (item_id c)"
      with dall show ?thesis by auto
    next
      assume "parent_id it \<in> ids cc"
      then obtain q where q: "q \<in> set (flatten cc)" and pq: "parent_id it = Some (item_id q)" by auto
      from dall have "distinct (map item_id (flatten ?K) @ map item_id (c # flatten cc @ flatten cs))"
        and nr: "item_id r \<notin> set (map item_id (flatten cc))"
        by simp_all
      then have dj: "set (map item_id (flatten ?K)) \<inter> set (map item_id (c # flatten cc @ flatten cs)) = {}"
        by (simp only: distinct_append)
      from q have q1: "item_id q \<in> set (map item_id (flatten cc))" by simp
      then have "item_id q \<in> set (map item_id (c # flatten cc @ flatten cs))" by simp
      with dj have "item_id q \<notin> set (map item_id (flatten ?K))" by (meson disjoint_iff)
      moreover from q1 nr have "item_id q \<noteq> item_id r" by auto
      ultimately have "item_id q \<noteq> item_id r" and "item_id q \<notin> item_id ` set (flatten ?K)"
        by simp_all
      with pq show ?thesis by auto
    qed
  qed
  then have "\<forall>it\<in>set (flatten cc). parent_id it \<noteq> Some (item_id r) \<and> parent_id it \<notin> ids ?K"
    by blast
  from attach_all_in_children [OF ih1 this, of tree]
  have a3: "attach_all (Node r ?c1 # tree) (flatten cc) = Some (Node r ?c2 # tree)" .
  from "3.prems"(3) have d2: "distinct (map item_id (flatten (Node r ?c2 # cs)))"
    by (simp only: flatten_snoc_child)
  from "3.IH"(2) [OF lcs tcs d2, of tree]
  have ih2: "attach_all (Node r ?c2 # tree) (flatten cs) = Some (Node r (add_children ?c2 cs) # tree)" .
  have "attach_all (Node r c0 # tree) (c # flatten cc @ flatten cs) =
          Some (Node r (add_children ?c2 cs) # tree)"
    by (simp add: a1 attach_all_append a3 ih2)
  then show ?case by (simp add: add_children_snoc)
qed

lemma links_ok_mem:
  "links_ok forest \<Longrightarrow> n \<in> set forest \<Longrightarrow>
   links_ok (kids n) \<and>
   (\<forall>c\<in>set (kids n). parent_id (item c) = Some (item_id (item n)) \<and> \<not> is_root (item c)) \<and>
   add_children None (kids n) = children n"
  by (induction forest rule: links_ok.induct)
     (auto simp: kids_simps list_all_iff add_children_def)

lemma flatten_mem:
  "n \<in> set forest \<Longrightarrow> item n \<in> set (flatten forest) \<and> set (flatten (kids n)) \<subseteq> set (flatten forest)"
  by (induction forest) (auto simp: flatten_Cons)

lemma below_parents:
  assumes "links_ok forest" and "it \<in> set (below_roots forest)"
  shows "parent_id it \<in> ids forest"
proof -
  from assms(2) obtain n where n: "n \<in> set forest" and it: "it \<in> set (flatten (kids n))"
    by (auto simp: below_roots_def)
  from links_ok_mem [OF assms(1) n] have l: "links_ok (kids n)"
    and t: "\<forall>c\<in>set (kids n). parent_id (item c) = Some (item_id (item n))" by simp_all
  from flatten_mem [OF n] have m: "item n \<in> set (flatten forest)"
    and sub: "set (flatten (kids n)) \<subseteq> set (flatten forest)" by simp_all
  from parents_below [OF l t it] show ?thesis
  proof
    assume "parent_id it = Some (item_id (item n))"
    with m show ?thesis by simp
  next
    assume "parent_id it \<in> ids (kids n)"
    with sub show ?thesis by auto
  qed
qed

lemma below_not_root:
  assumes "links_ok forest" and "it \<in> set (below_roots forest)"
  shows "\<not> is_root it"
proof -
  from assms(2) obtain n where n: "n \<in> set forest" and it: "it \<in> set (flatten (kids n))"
    by (auto simp: below_roots_def)
  from links_ok_mem [OF assms(1) n] have l: "links_ok (kids n)"
    and t: "\<forall>c\<in>set (kids n). \<not> is_root (item c)" by simp_all
  from flatten_toplevel_or_child [OF it] show ?thesis
  proof
    assume "it \<in> set (map item (kids n))"
    with t show ?thesis by auto
  next
    assume "\<exists>p\<in>set (all_nodes (kids n)). it \<in> set (child_items p)"
    then obtain p where "p \<in> set (all_nodes (kids n))" "it \<in> set (child_items p)" by blast
    from links_ok_child [OF l this] show ?thesis by simp
  qed
qed

lemma rebuild_forest:
  assumes "links_ok forest" and "distinct (map item_id (flatten forest))"
  shows "attach_all (bare_roots forest) (below_roots forest) = Some forest"
  using assms
proof (induction forest)
  case Nil
  show ?case by (simp add: bare_roots_def below_roots_def)
next
  case (Cons n forest)
  obtain r c where n: "n = Node r c" by (cases n)
  from Cons.prems(1) have lf: "links_ok forest"
    using links_ok_append [of "[n]" forest] by simp
  have nmem: "n \<in> set (n # forest)" by simp
  from links_ok_mem [OF Cons.prems(1) nmem] n
  have lk: "links_ok (kids n)"
    and tk: "\<forall>c\<in>set (kids n). parent_id (item c) = Some (item_id r)"
    and ck: "add_children None (kids n) = c"
    by simp_all
  have "item n = r" by (simp add: n)
  with Cons.prems(2) have dall: "distinct (map item_id (r # flatten (kids n) @ flatten forest))"
    unfolding flatten_Cons [of n forest] by simp
  then have dk: "distinct (map item_id (flatten (Node r None # kids n)))"
    and df: "distinct (map item_id (flatten forest))"
    by simp_all
  from rebuild_children [OF lk tk dk, of "bare_roots forest"] ck n
  have s1: "attach_all (Node r None # bare_roots forest) (flatten (kids n)) = Some (n # bare_roots forest)"
    by simp
  have side: "parent_id it \<notin> ids [n]" if "it \<in> set (below_roots forest)" for it
  proof -
    from below_parents [OF lf that] obtain q where q: "q \<in> set (flatten forest)"
      and pq: "parent_id it = Some (item_id q)" by auto
    from dall have "distinct (map item_id (r # flatten (kids n)) @ map item_id (flatten forest))" by simp
    then have "set (map item_id (r # flatten (kids n))) \<inter> set (map item_id (flatten forest)) = {}"
      by (simp only: distinct_append)
    moreover from q have "item_id q \<in> set (map item_id (flatten forest))" by simp
    ultimately have "item_id q \<notin> set (map item_id (r # flatten (kids n)))" by (meson disjoint_iff)
    moreover have "flatten [n] = r # flatten (kids n)"
      unfolding flatten_Cons [of n "[]"] using \<open>item n = r\<close> by simp
    ultimately show ?thesis using pq by auto
  qed
  then have "\<forall>it\<in>set (below_roots forest). parent_id it \<notin> ids [n]" by blast
  from attach_all_past_node [OF this, of "bare_roots forest"] Cons.IH [OF lf df]
  have s2: "attach_all (n # bare_roots forest) (below_roots forest) = Some (n # forest)" by simp
  have "bare_roots (n # forest) = Node r None # bare_roots forest" by (simp add: bare_roots_def n)
  moreover have "below_roots (n # forest) = flatten (kids n) @ below_roots forest"
    by (simp add: below_roots_def)
  ultimately show ?case by (simp add: attach_all_append s1 s2)
qed

lemma roots_split:
  assumes "links_ok forest" and "\<forall>n\<in>set forest. is_root (item n)"
  shows "filter is_root (flatten forest) = map item forest
       \<and> filter (\<lambda>r. \<not> is_root r) (flatten forest) = below_roots forest"
  using assms
proof (induction forest)
  case Nil
  show ?case by (simp add: below_roots_def)
next
  case (Cons n forest)
  from Cons.prems(1) have lf: "links_ok forest"
    using links_ok_append [of "[n]" forest] by simp
  have "\<not> is_root it" if "it \<in> set (flatten (kids n))" for it
  proof (rule below_not_root [OF Cons.prems(1)])
    from that show "it \<in> set (below_roots (n # forest))" by (simp add: below_roots_def)
  qed
  then have "filter is_root (flatten (kids n)) = []"
    and "filter (\<lambda>r. \<not> is_root r) (flatten (kids n)) = flatten (kids n)"
    by (simp_all add: filter_empty_conv filter_id_conv)
  moreover have "below_roots (n # forest) = flatten (kids n) @ below_roots forest"
    by (simp add: below_roots_def)
  ultimately show ?case using Cons.IH [OF lf] Cons.prems(2)
    by (simp add: flatten_Cons [of n])
qed

lemma attach_pass_of_attach_all:
  "attach_all tree its = Some tree' \<Longrightarrow> attach_pass its (tree, its @ rest) = Inr (tree', rest)"
proof (induction its arbitrary: tree)
  case Nil
  then show ?case by simp
next
  case (Cons it its)
  from Cons.prems obtain t1 where a: "attach tree it = Some t1" and r: "attach_all t1 its = Some tree'"
    by (auto split: option.splits)
  have "list_remove ((it # its) @ rest) it = Inr (its @ rest)" by (simp add: list_remove_def)
  with a Cons.IH [OF r] show ?case by simp
qed

lemma renest:
  assumes "links_ok forest" and "\<forall>n\<in>set forest. is_root (item n)"
    and "distinct (map item_id (flatten forest))"
  shows "list_to_tree (flatten forest) = Some (Inr (forest, []))"
proof -
  from roots_split [OF assms(1,2)]
  have "collect_roots (flatten forest) ([], flatten forest) = Inr (bare_roots forest, below_roots forest)"
    by (simp add: collect_roots_eq bare_roots_def)
  then have l: "list_to_tree (flatten forest) = attach_loop (bare_roots forest, below_roots forest)"
    by (simp add: list_to_tree_def)
  from rebuild_forest [OF assms(1,3)]
  have all: "attach_all (bare_roots forest) (below_roots forest) = Some forest" .
  have fin: "attach_loop (forest, []) = Some (Inr (forest, []))"
    by (subst attach_loop.simps) simp
  show ?thesis
  proof (cases "below_roots forest = []")
    case True
    with all have "bare_roots forest = forest" by simp
    with True l fin show ?thesis by simp
  next
    case False
    from attach_pass_of_attach_all [OF all, of "[]"]
    have "attach_pass (below_roots forest) (bare_roots forest, below_roots forest) = Inr (forest, [])"
      by simp
    with False have "attach_loop (bare_roots forest, below_roots forest) = attach_loop (forest, [])"
      by (subst attach_loop.simps) simp
    with l fin show ?thesis by simp
  qed
qed

lemma late_parent_resolvable:
  "resolvable [plain 3 (Some 2), plain 1 None, plain 2 (Some 1), plain 4 None]"
  by (simp add: resolvable_def plain_simps eval_nat_numeral)

lemma late_parent_result:
  "list_to_tree [plain 3 (Some 2), plain 1 None, plain 2 (Some 1), plain 4 None] =
     Some (Inr ([Node (plain 1 None) (Some [Node (plain 2 (Some 1)) (Some [Node (plain 3 (Some 2)) None])]),
                 Node (plain 4 None) None], []))"
  unfolding list_to_tree_def
  apply (simp add: py_not_def list_remove_def plain_simps)
  apply (subst attach_loop.simps)
  apply (simp add: list_remove_def plain_simps)
  apply (subst attach_loop.simps)
  apply (simp add: list_remove_def plain_simps)
  apply (subst attach_loop.simps)
  apply simp
  done

section \<open>The update and the search agree; no call raises\<close>

text \<open>\<open>attach\<close> changes the node that \<^verbatim>\<open>find_parent\<close> returns: after the update the same
  search finds that node with the record appended to its \<^verbatim>\<open>children\<close>.\<close>

lemma attach_updates_found:
  "find_parent tree it = Some p \<Longrightarrow>
   \<exists>tree'. attach tree it = Some tree' \<and>
           find_parent tree' it = Some (Node (item p) (Some (kids p @ [Node it None])))"
proof (induction tree it arbitrary: p rule: find_parent.induct)
  case (1 it)
  then show ?case by simp
next
  case (2 r ps it)
  show ?case
  proof (cases "Some (item_id r) = parent_id it")
    case True
    with "2.prems" show ?thesis by (auto simp: kids_simps)
  next
    case False
    with "2.prems" have "find_parent ps it = Some p" by simp
    from "2.IH" [OF False this] False show ?thesis by auto
  qed
next
  case (3 r cs ps it)
  show ?case
  proof (cases "Some (item_id r) = parent_id it")
    case True
    with "3.prems" show ?thesis by (auto simp: kids_simps)
  next
    case False
    show ?thesis
    proof (cases "find_parent cs it")
      case None
      with False "3.prems" have f: "find_parent ps it = Some p" by simp
      from None have a: "attach cs it = None" by (simp add: attach_None_iff)
      from "3.IH"(2) [OF False None f] False None a show ?thesis by auto
    next
      case (Some q)
      with False "3.prems" have "q = p" by simp
      with "3.IH"(1) [OF False] Some False show ?thesis by auto
    qed
  qed
qed

text \<open>A record taken from the copy of the list is still in the list when it is removed, so
  \<^verbatim>\<open>list.remove\<close> never raises.\<close>

lemma attach_loop_never_raises: "attach_loop s \<noteq> Some (Inl e)"
proof
  assume h: "attach_loop s = Some (Inl e)"
  have "\<forall>e. y \<noteq> Inl e" if r: "attach_loop s = Some y" for s :: "'a state" and y
  proof (rule attach_loop.raw_induct [where P = "\<lambda>s y. \<forall>e. y \<noteq> Inl e", OF _ r])
    fix loop :: "'a state \<Rightarrow> (error + 'a state) option" and s y
    assume ih: "\<And>s y. loop s = Some y \<Longrightarrow> \<forall>e. y \<noteq> Inl e"
      and body: "(if 0 < length (snd s)
                  then case attach_pass (snd s) s of Inl e \<Rightarrow> Some (Inl e) | Inr s' \<Rightarrow> loop s'
                  else Some (Inr s)) = Some y"
    from attach_pass_inv [of "snd s" "snd s" "fst s"]
    obtain s' where p: "attach_pass (snd s) s = Inr s'" by auto
    show "\<forall>e. y \<noteq> Inl e"
    proof (cases "snd s = []")
      case True
      with body show ?thesis by auto
    next
      case False
      with body p have "loop s' = Some y" by simp
      then show ?thesis by (rule ih)
    qed
  qed
  from this [OF h] show False by simp
qed

lemma list_to_tree_never_raises: "list_to_tree xs \<noteq> Some (Inl e)"
  by (simp add: list_to_tree_def collect_roots_eq attach_loop_never_raises)

section \<open>Properties of the date-bucketed listing\<close>

























section \<open>What one pass attaches\<close>




text \<open>With unique identifiers, the records of every state of the loop are pairwise different,
  in the forest and in the list together: the equality of values that the model of
  \<^verbatim>\<open>list.remove\<close> uses then tells the same records apart as the identity of objects.\<close>

lemma loop_state_distinct:
  assumes "distinct (map item_id xs)" and "loop_state xs s"
  shows "distinct (map item_id (flatten (fst s) @ snd s))"
proof -
  from loop_state_inv [OF assms(2)] have "mset (flatten (fst s)) + mset (snd s) = mset xs"
    by (simp add: state_inv_def)
  then have "mset (flatten (fst s) @ snd s) = mset xs" by simp
  then have "mset (map item_id (flatten (fst s) @ snd s)) = mset (map item_id xs)"
    by (metis mset_map)
  from mset_eq_imp_distinct_iff [OF this] assms(1) show ?thesis by simp
qed

lemma chain_distinct:
  "distinct (map item_id [plain 1 None, plain 2 (Some 1), plain 3 (Some 2), plain 4 None])"
  by (simp add: plain_simps)


lemma chain_first_pass:
  "attach_pass [plain 2 (Some 1), plain 3 (Some 2)]
     ([Node (plain 1 None) None, Node (plain 4 None) None], [plain 2 (Some 1), plain 3 (Some 2)]) =
   Inr ([Node (plain 1 None) (Some [Node (plain 2 (Some 1)) (Some [Node (plain 3 (Some 2)) None])]),
         Node (plain 4 None) None], [])"
  by (simp add: list_remove_def plain_simps)

section \<open>The claims\<close>

text \<open>
  C1. When the identifiers of the input are unique and every record reaches a record without
  parent by following \<^verbatim>\<open>parent_id\<close> (the parent graph is acyclic and every parent exists
  in the input), \<^verbatim>\<open>list_to_tree\<close> returns a forest that holds each record of the input
  exactly once: flattening the forest through every \<^verbatim>\<open>children\<close> list gives the multiset
  of the input records, hence the multiset of their identifiers.
\<close>

theorem list_to_tree_lossless:
  assumes "resolvable xs" and "distinct (map item_id xs)"
  shows "\<exists>forest. list_to_tree xs = Some (Inr (forest, []))
           \<and> mset (flatten forest) = mset xs
           \<and> mset (map item_id (flatten forest)) = mset (map item_id xs)"
proof -
  from list_to_tree_total [OF resolvable_resolves [OF assms(1)]]
  obtain forest where r: "list_to_tree xs = Some (Inr (forest, []))" by blast
  from list_to_tree_result [OF r] have m: "mset (flatten forest) = mset xs"
    by (simp add: state_inv_def)
  then have "image_mset item_id (mset (flatten forest)) = image_mset item_id (mset xs)"
    by (rule arg_cong)
  with r m show ?thesis by simp
qed

theorem list_to_tree_lossless_witness:
  "resolvable [plain 1 None, plain 2 (Some 1), plain 3 (Some 2), plain 4 None]
   \<and> distinct (map item_id [plain 1 None, plain 2 (Some 1), plain 3 (Some 2), plain 4 None])
   \<and> (\<exists>forest. list_to_tree [plain 1 None, plain 2 (Some 1), plain 3 (Some 2), plain 4 None]
                  = Some (Inr (forest, []))
        \<and> mset (flatten forest) = mset [plain 1 None, plain 2 (Some 1), plain 3 (Some 2), plain 4 None]
        \<and> mset (map item_id (flatten forest)) = mset [1, 2, 3, 4])"
  using chain_resolvable chain_distinct list_to_tree_lossless [OF chain_resolvable chain_distinct]
  by (simp add: plain_simps)

text \<open>
  C2. On the input \<^verbatim>\<open>[{id: 1, parent_id: 99}]\<close>, where no record has the identifier 99,
  the call never returns: record 1 is never attached, the list never becomes empty, and the
  \<^verbatim>\<open>while\<close> loop repeats the same pass for ever. It neither raises nor places record 1
  as a root.
\<close>

theorem dangling_parent_never_returns:
  "list_to_tree [plain 1 (Some 99)] = None"
proof -
  have c: "collect_roots [plain 1 (Some 99)] ([], [plain 1 (Some 99)]) = Inr ([], [plain 1 (Some 99)])"
    by (simp add: py_not_def plain_simps)
  have "attach_loop ([], [plain 1 (Some 99)]) = None"
    by (rule attach_loop_stuck) simp_all
  with c show ?thesis by (simp add: list_to_tree_def)
qed

text \<open>
  C3, as amended. Every record of the returned forest whose \<^verbatim>\<open>parent_id\<close> is truthy
  (neither null nor 0) appears inside the \<^verbatim>\<open>children\<close> of a node whose \<^verbatim>\<open>id\<close>
  equals that \<^verbatim>\<open>parent_id\<close>.
\<close>

theorem truthy_parent_nested:
  assumes "list_to_tree xs = Some (Inr (forest, lst))"
  shows "truthy_nested forest"
proof -
  from list_to_tree_result [OF assms] have "state_inv xs (forest, [])" by simp
  then show ?thesis by (rule state_inv_truthy_nested)
qed

theorem truthy_parent_nested_witness:
  "list_to_tree [plain 1 None, plain 2 (Some 1), plain 3 (Some 2), plain 4 None] =
     Some (Inr ([Node (plain 1 None) (Some [Node (plain 2 (Some 1)) (Some [Node (plain 3 (Some 2)) None])]),
                 Node (plain 4 None) None], []))
   \<and> truthy_nested [Node (plain 1 None) (Some [Node (plain 2 (Some 1)) (Some [Node (plain 3 (Some 2)) None])]),
                 Node (plain 4 None) None]"
  using chain_result truthy_parent_nested [OF chain_result] by simp

text \<open>C3 as stated fails for a non-null \<^verbatim>\<open>parent_id\<close> that is 0: record 5 names the
  existing record 0 as its parent and is returned at the top level, under no node.\<close>

theorem zero_parent_not_nested_counterexample:
  "list_to_tree [plain 0 None, plain 5 (Some 0)] =
     Some (Inr ([Node (plain 0 None) None, Node (plain 5 (Some 0)) None], []))
   \<and> \<not> non_null_nested [Node (plain 0 None) None, Node (plain 5 (Some 0)) None]"
  by (simp add: zero_parent_result non_null_nested_def nested_under_def child_items_def plain_simps)



text \<open>
  C5. On the chain scenario the function returns the chain 1, 2, 3 nested in order and 4 as
  the second root; the leaves 3 and 4 carry no \<^verbatim>\<open>children\<close> key (the key is created
  only when a first child is attached), not an empty \<^verbatim>\<open>children\<close> list.
\<close>

theorem chain_scenario_leaves_have_no_children:
  "list_to_tree [plain 1 None, plain 2 (Some 1), plain 3 (Some 2), plain 4 None] =
     Some (Inr ([Node (plain 1 None) (Some [Node (plain 2 (Some 1)) (Some [Node (plain 3 (Some 2)) None])]),
                 Node (plain 4 None) None], []))"
  by (rule chain_result)

text \<open>The forest that C5 states, with an empty \<^verbatim>\<open>children\<close> list on the leaves 3 and 4,
  is not what is returned.\<close>

theorem chain_scenario_counterexample:
  "list_to_tree [plain 1 None, plain 2 (Some 1), plain 3 (Some 2), plain 4 None] =
     Some (Inr ([Node (plain 1 None) (Some [Node (plain 2 (Some 1)) (Some [Node (plain 3 (Some 2)) None])]),
                 Node (plain 4 None) None], []))
   \<and> [Node (plain 1 None) (Some [Node (plain 2 (Some 1)) (Some [Node (plain 3 (Some 2)) None])]),
       Node (plain 4 None) None] \<noteq>
     [Node (plain 1 None) (Some [Node (plain 2 (Some 1)) (Some [Node (plain 3 (Some 2)) (Some [])])]),
      Node (plain 4 None) (Some [])]"
  by (simp add: chain_result)

text \<open>
  C6. When every record of the input has a null \<^verbatim>\<open>parent_id\<close>, the forest is the input
  sequence in the same order, and no record receives a \<^verbatim>\<open>children\<close> key.
\<close>

theorem only_roots_unchanged:
  assumes "\<forall>r\<in>set xs. parent_id r = None"
  shows "list_to_tree xs = Some (Inr (map (\<lambda>r. Node r None) xs, []))"
proof -
  from assms have "\<forall>r\<in>set xs. is_root r" by (simp add: is_root_def py_not_def)
  then have "filter is_root xs = xs" and "filter (\<lambda>r. \<not> is_root r) xs = []"
    by (simp_all add: filter_empty_conv)
  then have "collect_roots xs ([], xs) = Inr (map (\<lambda>r. Node r None) xs, [])"
    by (simp add: collect_roots_eq)
  moreover have "attach_loop (map (\<lambda>r. Node r None) xs, []) = Some (Inr (map (\<lambda>r. Node r None) xs, []))"
    by (subst attach_loop.simps) simp
  ultimately show ?thesis by (simp add: list_to_tree_def)
qed

theorem only_roots_unchanged_witness:
  "parent_id (plain 7 None) = None \<and> parent_id (plain 3 None) = None
   \<and> list_to_tree [plain 7 None, plain 3 None] =
       Some (Inr ([Node (plain 7 None) None, Node (plain 3 None) None], []))"
  using only_roots_unchanged [of "[plain 7 None, plain 3 None]"]
  by (simp add: plain_simps)

text \<open>
  C7. For an input with unique identifiers in which every record reaches a record without
  parent, the call returns a forest, and flattening that forest (depth first, each record
  followed by the records under it) and nesting the flat list again returns the very same
  forest.
\<close>

theorem renesting_gives_same_forest:
  assumes "resolvable xs" and "distinct (map item_id xs)"
  shows "\<exists>forest. list_to_tree xs = Some (Inr (forest, []))
           \<and> list_to_tree (flatten forest) = Some (Inr (forest, []))"
proof -
  from list_to_tree_total [OF resolvable_resolves [OF assms(1)]]
  obtain forest where r: "list_to_tree xs = Some (Inr (forest, []))" by blast
  from list_to_tree_result [OF r] have m: "mset (flatten forest) = mset xs"
    and t: "map item forest = filter is_root xs" and l: "links_ok forest"
    by (simp_all add: state_inv_def)
  from m have "mset (map item_id (flatten forest)) = mset (map item_id xs)" by simp
  from mset_eq_imp_distinct_iff [OF this] assms(2)
  have d: "distinct (map item_id (flatten forest))" by simp
  have roots: "\<forall>n\<in>set forest. is_root (item n)"
  proof
    fix n assume "n \<in> set forest"
    then have "item n \<in> set (map item forest)" by simp
    with t show "is_root (item n)" by simp
  qed
  from renest [OF l roots d] r show ?thesis by blast
qed

theorem renesting_gives_same_forest_witness:
  "resolvable [plain 3 (Some 2), plain 1 None, plain 2 (Some 1), plain 4 None]
   \<and> distinct (map item_id [plain 3 (Some 2), plain 1 None, plain 2 (Some 1), plain 4 None])
   \<and> list_to_tree [plain 3 (Some 2), plain 1 None, plain 2 (Some 1), plain 4 None] =
       Some (Inr ([Node (plain 1 None) (Some [Node (plain 2 (Some 1)) (Some [Node (plain 3 (Some 2)) None])]),
                   Node (plain 4 None) None], []))
   \<and> list_to_tree (flatten
         [Node (plain 1 None) (Some [Node (plain 2 (Some 1)) (Some [Node (plain 3 (Some 2)) None])]),
          Node (plain 4 None) None]) =
       Some (Inr ([Node (plain 1 None) (Some [Node (plain 2 (Some 1)) (Some [Node (plain 3 (Some 2)) None])]),
                   Node (plain 4 None) None], []))"
proof -
  have d: "distinct (map item_id [plain 3 (Some 2), plain 1 None, plain 2 (Some 1), plain 4 None])"
    by (simp add: plain_simps)
  from renesting_gives_same_forest [OF late_parent_resolvable d]
  obtain forest where a: "list_to_tree [plain 3 (Some 2), plain 1 None, plain 2 (Some 1), plain 4 None]
      = Some (Inr (forest, []))"
    and b: "list_to_tree (flatten forest) = Some (Inr (forest, []))" by blast
  from a have f: "forest = [Node (plain 1 None) (Some [Node (plain 2 (Some 1)) (Some [Node (plain 3 (Some 2)) None])]),
                   Node (plain 4 None) None]"
    unfolding late_parent_result by simp
  from b show ?thesis unfolding f
    by (intro conjI late_parent_resolvable d late_parent_result)
qed




text \<open>
  C9, as amended. The function consumes its argument: whenever it returns, the list object it
  was given is empty; and when the identifiers of the input are unique, the returned forest
  holds the records of the input, each once.
\<close>

theorem input_list_is_emptied:
  assumes "list_to_tree xs = Some (Inr (forest, lst))"
  shows "lst = [] \<and> (distinct (map item_id xs) \<longrightarrow> mset (flatten forest) = mset xs)"
  using list_to_tree_result [OF assms] by (simp add: state_inv_def)

theorem input_list_is_emptied_witness:
  "list_to_tree [plain 1 None, plain 2 (Some 1), plain 3 (Some 2), plain 4 None] =
     Some (Inr ([Node (plain 1 None) (Some [Node (plain 2 (Some 1)) (Some [Node (plain 3 (Some 2)) None])]),
                 Node (plain 4 None) None], []))
   \<and> distinct (map item_id [plain 1 None, plain 2 (Some 1), plain 3 (Some 2), plain 4 None])
   \<and> mset (flatten [Node (plain 1 None) (Some [Node (plain 2 (Some 1)) (Some [Node (plain 3 (Some 2)) None])]),
                 Node (plain 4 None) None])
       = mset [plain 1 None, plain 2 (Some 1), plain 3 (Some 2), plain 4 None]"
  using chain_result chain_distinct input_list_is_emptied [OF chain_result] by simp

text \<open>C9 as stated fails: after the call on a list of one root record, the list the caller
  passed is empty, not the list it passed.\<close>

theorem input_list_changed_counterexample:
  "list_to_tree [plain 1 None] = Some (Inr ([Node (plain 1 None) None], []))
   \<and> ([] :: unit item list) \<noteq> [plain 1 None]"
proof -
  have "list_to_tree [plain 1 None] = Some (Inr ([Node (plain 1 None) None], []))"
    unfolding list_to_tree_def
    apply (simp add: py_not_def list_remove_def plain_simps)
    apply (subst attach_loop.simps)
    apply simp
    done
  then show ?thesis by simp
qed

text \<open>
  C10. A record of the input whose \<^verbatim>\<open>parent_id\<close> is 0 is at the top level of the
  returned forest and is in the \<^verbatim>\<open>children\<close> of no node, so in particular not of a node
  whose \<^verbatim>\<open>id\<close> is 0.
\<close>

theorem zero_parent_is_root:
  assumes "list_to_tree xs = Some (Inr (forest, lst))"
    and "r \<in> set xs" and "parent_id r = Some 0"
  shows "r \<in> set (map item forest) \<and> \<not> list_ex (\<lambda>p. r \<in> set (child_items p)) (all_nodes forest)"
proof -
  from list_to_tree_result [OF assms(1)] have l: "links_ok forest"
    and t: "map item forest = filter is_root xs"
    by (simp_all add: state_inv_def)
  from assms(3) have root: "is_root r" by (simp add: is_root_def py_not_def)
  with assms(2) t have "r \<in> set (map item forest)" by simp
  moreover have "r \<notin> set (child_items p)" if "p \<in> set (all_nodes forest)" for p
    using links_ok_child [OF l that, of r] root by blast
  ultimately show ?thesis by (simp add: list_ex_iff)
qed

theorem zero_parent_is_root_witness:
  "list_to_tree [plain 0 None, plain 5 (Some 0)] =
     Some (Inr ([Node (plain 0 None) None, Node (plain 5 (Some 0)) None], []))
   \<and> plain 5 (Some 0) \<in> set [plain 0 None, plain 5 (Some 0)]
   \<and> parent_id (plain 5 (Some 0)) = Some 0
   \<and> plain 5 (Some 0) \<in> set (map item [Node (plain 0 None) None, Node (plain 5 (Some 0)) None])
   \<and> \<not> list_ex (\<lambda>p. plain 5 (Some 0) \<in> set (child_items p))
          (all_nodes [Node (plain 0 None) None, Node (plain 5 (Some 0)) None])"
  using zero_parent_result
    zero_parent_is_root [OF zero_parent_result, of "plain 5 (Some 0)"]
  by (simp add: plain_simps)

end
